theory Spec2Isabelle
  imports Main
begin

section \<open>JavaScript values used by the plugin\<close>

text \<open>
  The module \<^verbatim>\<open>src/index.js\<close> exports one function that installs the methods
  \<^verbatim>\<open>run\<close>, \<^verbatim>\<open>runAsync\<close>, \<^verbatim>\<open>getServers\<close>, \<^verbatim>\<open>copy\<close>, \<^verbatim>\<open>move\<close>,
  \<^verbatim>\<open>compile\<close>, \<^verbatim>\<open>compileAndWatch\<close> and \<^verbatim>\<open>logWebpackData\<close> on its receiver.
  Everything asynchronous in it is a promise that is settled by a callback an external
  party invokes (a child process emitting an event, the bundler finishing a pass), so the
  model is a state that the external party's events are delivered to, one at a time.
\<close>

subsection \<open>Promises\<close>

text \<open>
  A promise is pending, fulfilled with a value or rejected with a reason. Its resolving
  functions act on a pending promise only: calling \<^verbatim>\<open>resolve\<close> or \<^verbatim>\<open>reject\<close> on a
  settled promise is a no-operation. No value handed to \<^verbatim>\<open>resolve\<close> in this module is
  a thenable (exit codes, error objects, \<^verbatim>\<open>undefined\<close>), so resolving is fulfilling.
\<close>

datatype ('v, 'e) promise = Pending | Fulfilled 'v | Rejected 'e

fun resolve :: "'v \<Rightarrow> ('v, 'e) promise \<Rightarrow> ('v, 'e) promise" where
  "resolve v Pending = Fulfilled v"
| "resolve v p = p"

fun reject :: "'e \<Rightarrow> ('v, 'e) promise \<Rightarrow> ('v, 'e) promise" where
  "reject e Pending = Rejected e"
| "reject e p = p"

text \<open>
  \<^verbatim>\<open>a || b\<close> on an optional string: \<^verbatim>\<open>undefined\<close> and the empty string are falsy, every
  other string is truthy. On an optional array only \<^verbatim>\<open>undefined\<close> is falsy (an array,
  the empty one too, is an object).
\<close>

definition or_string :: "string option \<Rightarrow> string \<Rightarrow> string" where
  "or_string a b = (case a of None \<Rightarrow> b | Some s \<Rightarrow> if s = [] then b else s)"

definition or_array :: "'a list option \<Rightarrow> 'a list \<Rightarrow> 'a list" where
  "or_array a b = (case a of None \<Rightarrow> b | Some xs \<Rightarrow> xs)"

section \<open>run\<close>

text \<open>
  \<^verbatim>\<open>params\<close> is an object whose three properties may each be absent. The environment
  \<^verbatim>\<open>process.env\<close> is a dictionary from variable names to strings.
\<close>

record run_params =
  run_method :: "string option"
  args :: "string list option"
  resolveOn :: "string option"

definition no_params :: run_params where
  "no_params = \<lparr>run_method = None, args = None, resolveOn = None\<rparr>"

type_synonym env = "string \<rightharpoonup> string"

text \<open>
  The three calls into \<^verbatim>\<open>child_process\<close>, with the arguments and options the source
  passes: \<^verbatim>\<open>fork(script, args, {silent: false, env})\<close>, \<^verbatim>\<open>exec(script, {env})\<close> and
  \<^verbatim>\<open>spawn(script, args, {stdio: 'inherit', env})\<close>.
\<close>

datatype child_call =
    Fork string "string list" bool env
  | Exec string env
  | Spawn string "string list" string env

fun call_env :: "child_call \<Rightarrow> env" where
  "call_env (Fork script as silent e) = e"
| "call_env (Exec script e) = e"
| "call_env (Spawn script as stdio e) = e"

text \<open>
  \<^verbatim>\<open>const NODE_ENV = process.env['NODE_ENV'] || 'development';\<close>
  \<^verbatim>\<open>const env = Object.assign({}, process.env, { NODE_ENV });\<close>
\<close>

definition child_env :: "env \<Rightarrow> env" where
  "child_env process_env =
     process_env(''NODE_ENV'' \<mapsto> or_string (process_env ''NODE_ENV'') ''development'')"

text \<open>The \<^verbatim>\<open>switch (params.method)\<close> of the executor.\<close>

definition launch :: "env \<Rightarrow> string \<Rightarrow> run_params \<Rightarrow> child_call" where
  "launch process_env script params =
     (let as = or_array (args params) [];
          e = child_env process_env
      in if run_method params = Some ''fork'' then Fork script as False e
         else if run_method params = Some ''exec'' then Exec script e
         else Spawn script as ''inherit'' e)"

text \<open>
  What a call into \<^verbatim>\<open>child_process\<close> does is not decided by this module: it returns a
  handle to the child, or it throws at once (a path through a file that is not a
  directory, an empty command). Which of the two a given call does is a parameter of the
  model.
\<close>

datatype 'v launched = Throws 'v | Handle

text \<open>
  The state a call of \<^verbatim>\<open>run\<close> leaves behind: the call that was made, the event name
  \<^verbatim>\<open>done\<close> under which \<^verbatim>\<open>resolve\<close> was registered on the handle with \<^verbatim>\<open>.on\<close> (a
  permanent listener, not \<^verbatim>\<open>.once\<close>), and the promise returned. The call is made inside
  the executor of the promise: when it throws, no listener is registered and the
  exception rejects the promise. The executor has no \<^verbatim>\<open>reject\<close> parameter, so this is
  the only way the promise is rejected.
\<close>

record 'v run_state =
  child :: child_call
  listener :: "string option"
  promise :: "('v, 'v) promise"

text \<open>\<^verbatim>\<open>run(script, params = {})\<close>: an absent second argument is the empty object.\<close>

definition default_params :: "run_params option \<Rightarrow> run_params" where
  "default_params params_opt = (case params_opt of None \<Rightarrow> no_params | Some p \<Rightarrow> p)"

definition run ::
  "(child_call \<Rightarrow> 'v launched) \<Rightarrow> env \<Rightarrow> string \<Rightarrow> run_params option \<Rightarrow> 'v run_state" where
  "run child_process process_env script params_opt =
     (let params = default_params params_opt;
          call = launch process_env script params
      in case child_process call of
           Throws e \<Rightarrow> \<lparr>child = call, listener = None, promise = Rejected e\<rparr>
         | Handle \<Rightarrow>
             \<lparr>child = call, listener = Some (or_string (resolveOn params) ''exit''),
              promise = Pending\<rparr>)"

text \<open>
  The child emits an event, a name with a payload (the first argument the listeners get).
  Every listener registered under that name is called; here that is \<^verbatim>\<open>resolve\<close>.
\<close>

definition emit :: "string \<times> 'v \<Rightarrow> 'v run_state \<Rightarrow> 'v run_state" where
  "emit ev st =
     (if listener st = Some (fst ev) then st\<lparr>promise := resolve (snd ev) (promise st)\<rparr>
      else st)"

fun emit_all :: "(string \<times> 'v) list \<Rightarrow> 'v run_state \<Rightarrow> 'v run_state" where
  "emit_all [] st = st"
| "emit_all (ev # evs) st = emit_all evs (emit ev st)"

text \<open>How many of the events of a trace take the promise out of its pending state.\<close>

fun settlements :: "(string \<times> 'v) list \<Rightarrow> 'v run_state \<Rightarrow> nat" where
  "settlements [] st = 0"
| "settlements (ev # evs) st =
     (if promise st = Pending \<and> promise (emit ev st) \<noteq> Pending then 1 else 0)
       + settlements evs (emit ev st)"

section \<open>runAsync\<close>

text \<open>
  An element of \<^verbatim>\<open>scripts\<close> is a string or an object with the properties
  \<^verbatim>\<open>script\<close> and (possibly absent) \<^verbatim>\<open>params\<close>.
\<close>

record request =
  script :: string
  params :: "run_params option"

datatype item = Str string | Obj request

text \<open>
  \<^verbatim>\<open>typeof item === 'string' ? [ item ] : [ item.script, item.params || {} ]\<close>:
  the argument list \<^verbatim>\<open>run\<close> is then applied to with \<^verbatim>\<open>this.run(...args)\<close>.
\<close>

fun to_args :: "item \<Rightarrow> string \<times> run_params option" where
  "to_args (Str s) = (s, None)"
| "to_args (Obj r) =
     (script r, Some (case params r of None \<Rightarrow> no_params | Some p \<Rightarrow> p))"

text \<open>
  \<^verbatim>\<open>Promise.all\<close> over the promises of the runs: a slot per element for its value, the
  number of elements not yet fulfilled, and the aggregate promise.
\<close>

record 'v batch_state =
  runs :: "'v run_state list"
  vals :: "'v option list"
  remaining :: nat
  all_promise :: "('v list, 'v) promise"

text \<open>
  The reaction of \<^verbatim>\<open>Promise.all\<close> to the settling of its element \<open>i\<close>: a fulfilment
  stores the value in slot \<open>i\<close> and, when it was the last one awaited, resolves the
  aggregate with the slots in index order; a rejection rejects the aggregate.
\<close>

definition element_settled ::
  "nat \<Rightarrow> ('v, 'v) promise \<Rightarrow> 'v batch_state \<Rightarrow> 'v batch_state" where
  "element_settled i p bs =
     (case p of
        Pending \<Rightarrow> bs
      | Fulfilled v \<Rightarrow>
          (let vs = (vals bs)[i := Some v]; n = remaining bs - 1
           in bs\<lparr>vals := vs, remaining := n,
                 all_promise :=
                   (if n = 0 then resolve (map the vs) (all_promise bs) else all_promise bs)\<rparr>)
      | Rejected e \<Rightarrow> bs\<lparr>all_promise := reject e (all_promise bs)\<rparr>)"

text \<open>
  The elements that are settled already when \<^verbatim>\<open>Promise.all\<close> is called (here: the runs
  whose launch threw) get their reaction in index order, before any event of a child
  arrives. An empty input is fulfilled at once with the empty array.
\<close>

fun settle_initial ::
  "nat \<Rightarrow> ('v, 'v) promise list \<Rightarrow> 'v batch_state \<Rightarrow> 'v batch_state" where
  "settle_initial i [] bs = bs"
| "settle_initial i (p # ps) bs = settle_initial (Suc i) ps (element_settled i p bs)"

definition promise_all :: "'v run_state list \<Rightarrow> 'v batch_state" where
  "promise_all rs =
     settle_initial 0 (map promise rs)
       \<lparr>runs = rs, vals = replicate (length rs) None, remaining = length rs,
        all_promise = (if rs = [] then Fulfilled [] else Pending)\<rparr>"

definition runAsync ::
  "(child_call \<Rightarrow> 'v launched) \<Rightarrow> env \<Rightarrow> item list \<Rightarrow> 'v batch_state" where
  "runAsync child_process process_env scripts =
     promise_all
       (map (\<lambda>as. run child_process process_env (fst as) (snd as)) (map to_args scripts))"

text \<open>
  An event of the batch: child number \<open>i\<close> emits a named event with a payload. The
  children run side by side, so their events arrive interleaved in any order.
\<close>

definition batch_emit ::
  "nat \<times> string \<times> 'v \<Rightarrow> 'v batch_state \<Rightarrow> 'v batch_state" where
  "batch_emit ev bs =
     (let i = fst ev
      in if i < length (runs bs) then
           (let r = runs bs ! i;
                r' = emit (snd ev) r;
                bs' = bs\<lparr>runs := (runs bs)[i := r']\<rparr>
            in if promise r = Pending then element_settled i (promise r') bs' else bs')
         else bs)"

fun batch_emit_all ::
  "(nat \<times> string \<times> 'v) list \<Rightarrow> 'v batch_state \<Rightarrow> 'v batch_state" where
  "batch_emit_all [] bs = bs"
| "batch_emit_all (ev # evs) bs = batch_emit_all evs (batch_emit ev bs)"

text \<open>The events of child \<open>i\<close> within an interleaved trace, in their order.\<close>

definition events_of :: "nat \<Rightarrow> (nat \<times> string \<times> 'v) list \<Rightarrow> (string \<times> 'v) list" where
  "events_of i evs = map snd (filter (\<lambda>ev. fst ev = i) evs)"

text \<open>
  The value a settled promise was fulfilled with, and the invariant that ties the
  book-keeping of \<^verbatim>\<open>Promise.all\<close> to the promises of the runs: each slot holds the
  value of its run, the counter is the number of runs not fulfilled, the aggregate is
  fulfilled, with the slots, when nothing is awaited any more, and until then it is
  pending or, some run being rejected, rejected.
\<close>

fun value_of :: "('v, 'e) promise \<Rightarrow> 'v option" where
  "value_of (Fulfilled v) = Some v"
| "value_of p = None"

definition batch_inv :: "'v batch_state \<Rightarrow> bool" where
  "batch_inv bs \<longleftrightarrow>
     vals bs = map (\<lambda>r. value_of (promise r)) (runs bs) \<and>
     remaining bs = length (filter (\<lambda>r. value_of (promise r) = None) (runs bs)) \<and>
     (remaining bs = 0 \<longrightarrow> all_promise bs = Fulfilled (map the (vals bs))) \<and>
     (remaining bs \<noteq> 0 \<longrightarrow>
        all_promise bs = Pending \<or>
        ((\<exists>e. all_promise bs = Rejected e) \<and>
         (\<exists>r \<in> set (runs bs). \<exists>e. promise r = Rejected e)))"

section \<open>getServers\<close>

record gs_params =
  bundles :: "string list option"
  hot :: "bool option"

text \<open>
  The file system as \<^verbatim>\<open>getServers\<close> uses it: \<^verbatim>\<open>process.cwd()\<close>, \<^verbatim>\<open>path.resolve\<close>
  and \<^verbatim>\<open>fs.readdirSync\<close>, which returns the entry names or throws.
\<close>

record 'x filesystem =
  cwd :: string
  path_resolve :: "string list \<Rightarrow> string"
  readdirSync :: "string \<Rightarrow> 'x + string list"

definition hot_server :: "string \<Rightarrow> request" where
  "hot_server server =
     \<lparr>script = ''scripts/nodemon'',
      params = Some \<lparr>run_method = None, args = Some [''build/'' @ server @ ''.js''],
                     resolveOn = None\<rparr>\<rparr>"

definition fork_server :: "string \<Rightarrow> request" where
  "fork_server server =
     \<lparr>script = ''build/'' @ server @ ''.js'',
      params = Some \<lparr>run_method = Some ''fork'', args = None, resolveOn = None\<rparr>\<rparr>"

text \<open>
  The result is paired with the list of directories that were read. The right operand of
  \<^verbatim>\<open>bundles || fs.readdirSync(...)\<close> is evaluated only when \<^verbatim>\<open>bundles\<close> is absent;
  an exception of \<^verbatim>\<open>readdirSync\<close> leaves the function.
\<close>

definition getServers ::
  "'x filesystem \<Rightarrow> gs_params option \<Rightarrow> ('x + request list) \<times> string list" where
  "getServers fs params_opt =
     (let ps = (case params_opt of None \<Rightarrow> \<lparr>bundles = None, hot = None\<rparr> | Some p \<Rightarrow> p);
          listing =
            (case bundles ps of
               Some bs \<Rightarrow> (Inr bs, [])
             | None \<Rightarrow>
                 (let dir = path_resolve fs [cwd fs, ''app'', ''bundles'']
                  in (readdirSync fs dir, [dir])))
      in (case fst listing of
            Inl x \<Rightarrow> Inl x
          | Inr servers \<Rightarrow>
              Inr (if hot ps = Some True then map hot_server servers
                   else map fork_server servers),
          snd listing))"

section \<open>logWebpackData, compile and compileAndWatch\<close>

text \<open>
  The bundler hands its callback an error (or \<^verbatim>\<open>null\<close>) and a stats object (or nothing:
  \<^verbatim>\<open>Compiler.run\<close> calls back with the error alone when a pass fails fatally). The only
  use of the stats object is \<^verbatim>\<open>stats.toString(options)\<close>, so it is modelled as that
  function. \<^verbatim>\<open>this.error\<close> and \<^verbatim>\<open>this.log\<close> append to the two output channels.
\<close>

record stats_options =
  colors :: bool
  hash :: bool
  version :: bool
  chunks :: bool
  children :: bool

type_synonym stats = "stats_options \<Rightarrow> string"

type_synonym 'err outcome = "'err option \<times> stats option"

datatype exn = TypeError

record 'err console =
  errors :: "'err list"
  logs :: "string list"

text \<open>
  Reading the property \<^verbatim>\<open>toString\<close> of \<^verbatim>\<open>undefined\<close> or \<^verbatim>\<open>null\<close> throws a
  \<^verbatim>\<open>TypeError\<close>; what was written to the error channel before stays written.
\<close>

definition logWebpackData ::
  "'err option \<Rightarrow> stats option \<Rightarrow> 'err console \<Rightarrow> (exn + unit) \<times> 'err console" where
  "logWebpackData err st c =
     (let c1 = (case err of None \<Rightarrow> c | Some e \<Rightarrow> c\<lparr>errors := errors c @ [e]\<rparr>)
      in case st of
           None \<Rightarrow> (Inl TypeError, c1)
         | Some to_string \<Rightarrow>
             (Inr (),
              c1\<lparr>logs := logs c1 @
                 [to_string \<lparr>colors = True, hash = False, version = False,
                             chunks = False, children = False\<rparr>]\<rparr>))"

text \<open>
  The state of a compilation: the output channels, the promise returned, and the
  exceptions that left the callback. The bundler invokes the callback after the executor
  has returned, so an exception thrown in it reaches the bundler and not the promise.
  \<^verbatim>\<open>compileAndWatch\<close> has its local variable \<^verbatim>\<open>initialRun\<close> in addition.
\<close>

record 'err compile_state =
  console :: "'err console"
  future :: "(unit, exn) promise"
  uncaught :: "exn list"

record 'err watch_state = "'err compile_state" +
  initialRun :: bool

text \<open>
  \<^verbatim>\<open>(err, stats) => { this.logWebpackData(err, stats); return resolve(); }\<close>
\<close>

definition compile_callback :: "'err outcome \<Rightarrow> 'err compile_state \<Rightarrow> 'err compile_state" where
  "compile_callback oc s =
     (case logWebpackData (fst oc) (snd oc) (console s) of
        (Inl x, c) \<Rightarrow> s\<lparr>console := c, uncaught := uncaught s @ [x]\<rparr>
      | (Inr u, c) \<Rightarrow> s\<lparr>console := c, future := resolve () (future s)\<rparr>)"

text \<open>
  \<^verbatim>\<open>(err, stats) => { this.logWebpackData(err, stats);\<close>
  \<^verbatim>\<open>  if (initialRun) { initialRun = false; return resolve(); } }\<close>
\<close>

definition watch_callback :: "'err outcome \<Rightarrow> 'err watch_state \<Rightarrow> 'err watch_state" where
  "watch_callback oc s =
     (case logWebpackData (fst oc) (snd oc) (console s) of
        (Inl x, c) \<Rightarrow> s\<lparr>console := c, uncaught := uncaught s @ [x]\<rparr>
      | (Inr u, c) \<Rightarrow>
          (if initialRun s
           then s\<lparr>console := c, initialRun := False, future := resolve () (future s)\<rparr>
           else s\<lparr>console := c\<rparr>))"

text \<open>The bundler invokes the callback once per outcome, in order.\<close>

fun callbacks :: "('o \<Rightarrow> 's \<Rightarrow> 's) \<Rightarrow> 'o list \<Rightarrow> 's \<Rightarrow> 's" where
  "callbacks cb [] s = s"
| "callbacks cb (oc # ocs) s = callbacks cb ocs (cb oc s)"

text \<open>
  The bundler is a parameter: for a configuration it yields the outcomes it calls the
  callback with (\<^verbatim>\<open>run\<close>: the one completion; \<^verbatim>\<open>watch\<close>: one per pass). The initial
  state is the one each function sets up: a pending promise and, in
  \<^verbatim>\<open>compileAndWatch\<close>, \<^verbatim>\<open>let initialRun = true\<close>.
\<close>

definition compile ::
  "('cfg \<Rightarrow> 'err outcome list) \<Rightarrow> 'err console \<Rightarrow> 'cfg \<Rightarrow> 'err compile_state" where
  "compile webpack_run c config =
     callbacks compile_callback (webpack_run config)
       \<lparr>console = c, future = Pending, uncaught = []\<rparr>"

definition compileAndWatch ::
  "('cfg \<Rightarrow> 'err outcome list) \<Rightarrow> 'err console \<Rightarrow> 'cfg \<Rightarrow> 'err watch_state" where
  "compileAndWatch webpack_watch c config =
     callbacks watch_callback (webpack_watch config)
       \<lparr>console = c, future = Pending, uncaught = [], initialRun = True\<rparr>"

text \<open>How many of the outcomes of a session take the returned promise out of pending.\<close>

fun resolutions ::
  "('o \<Rightarrow> ('err, 'z) compile_state_scheme \<Rightarrow> ('err, 'z) compile_state_scheme) \<Rightarrow> 'o list \<Rightarrow>
   ('err, 'z) compile_state_scheme \<Rightarrow> nat" where
  "resolutions cb [] s = 0"
| "resolutions cb (oc # ocs) s =
     (if future s = Pending \<and> future (cb oc s) \<noteq> Pending then 1 else 0)
       + resolutions cb ocs (cb oc s)"

section \<open>Properties of run\<close>

lemma call_env_launch: "call_env (launch pe scr ps) = child_env pe"
  by (simp add: launch_def Let_def)

lemma child_run: "child (run L pe scr po) = launch pe scr (default_params po)"
  by (simp add: run_def Let_def split: launched.splits)

lemma listener_run:
  "listener (run L pe scr po) =
     (case L (launch pe scr (default_params po)) of
        Throws e \<Rightarrow> None
      | Handle \<Rightarrow> Some (or_string (resolveOn (default_params po)) ''exit''))"
  by (simp add: run_def Let_def split: launched.splits)

lemma promise_run:
  "promise (run L pe scr po) =
     (case L (launch pe scr (default_params po)) of
        Throws e \<Rightarrow> Rejected e
      | Handle \<Rightarrow> Pending)"
  by (simp add: run_def Let_def split: launched.splits)

lemma value_of_promise_run: "value_of (promise (run L pe scr po)) = None"
  by (simp add: promise_run split: launched.splits)

lemma listener_emit: "listener (emit ev st) = listener st"
  by (simp add: emit_def)

lemma listener_emit_all: "listener (emit_all evs st) = listener st"
  by (induction evs arbitrary: st) (simp_all add: listener_emit)

lemma child_emit_all: "child (emit_all evs st) = child st"
  by (induction evs arbitrary: st) (simp_all add: emit_def)

lemma promise_emit:
  "promise (emit ev st) =
     (if listener st = Some (fst ev) then resolve (snd ev) (promise st) else promise st)"
  by (simp add: emit_def)

lemma resolve_settled: "p \<noteq> Pending \<Longrightarrow> resolve v p = p"
  by (cases p) simp_all

lemma promise_emit_all_settled:
  "promise st \<noteq> Pending \<Longrightarrow> promise (emit_all evs st) = promise st"
  by (induction evs arbitrary: st) (simp_all add: promise_emit resolve_settled)

lemma settlements_settled:
  "promise st \<noteq> Pending \<Longrightarrow> settlements evs st = 0"
  by (induction evs arbitrary: st) (simp_all add: promise_emit resolve_settled)

lemma emit_all_no_listener: "listener st = None \<Longrightarrow> emit_all evs st = st"
  by (induction evs) (simp_all add: emit_def)

lemma promise_emit_all_pending:
  "promise st = Pending \<Longrightarrow> listener st = Some d \<Longrightarrow>
   promise (emit_all evs st) =
     (case find (\<lambda>ev. fst ev = d) evs of
        None \<Rightarrow> Pending | Some ev \<Rightarrow> Fulfilled (snd ev))"
proof (induction evs arbitrary: st)
  case Nil
  then show ?case by simp
next
  case (Cons ev evs)
  show ?case
  proof (cases "fst ev = d")
    case True
    then have "promise (emit ev st) = Fulfilled (snd ev)"
      using Cons.prems by (simp add: promise_emit)
    then show ?thesis using True by (simp add: promise_emit_all_settled)
  next
    case False
    then have "emit ev st = st" using Cons.prems by (auto simp: emit_def)
    then show ?thesis using False Cons by simp
  qed
qed

lemma settlements_pending:
  "promise st = Pending \<Longrightarrow> listener st = Some d \<Longrightarrow>
   settlements evs st = (if d \<in> fst ` set evs then 1 else 0)"
proof (induction evs arbitrary: st)
  case Nil
  then show ?case by simp
next
  case (Cons ev evs)
  show ?case
  proof (cases "fst ev = d")
    case True
    then have "promise (emit ev st) = Fulfilled (snd ev)"
      using Cons.prems by (simp add: promise_emit)
    then show ?thesis using True Cons.prems by (simp add: settlements_settled)
  next
    case False
    then have "emit ev st = st" using Cons.prems by (auto simp: emit_def)
    then show ?thesis using False Cons by auto
  qed
qed

text \<open>
  The promise of a run after any sequence of events of its child: rejected when the
  launch threw, and otherwise decided by the first occurrence of the awaited event.
\<close>

lemma promise_emit_all_run:
  "promise (emit_all evs (run L pe scr po)) =
     (case L (launch pe scr (default_params po)) of
        Throws e \<Rightarrow> Rejected e
      | Handle \<Rightarrow>
          (case find (\<lambda>ev. fst ev = or_string (resolveOn (default_params po)) ''exit'') evs of
             None \<Rightarrow> Pending
           | Some ev \<Rightarrow> Fulfilled (snd ev)))"
proof (cases "L (launch pe scr (default_params po))")
  case (Throws e)
  then show ?thesis
    by (simp add: promise_emit_all_settled promise_run)
next
  case Handle
  then have "promise (run L pe scr po) = Pending"
    and "listener (run L pe scr po) = Some (or_string (resolveOn (default_params po)) ''exit'')"
    by (simp_all add: promise_run listener_run)
  then show ?thesis
    using Handle by (simp add: promise_emit_all_pending)
qed

lemma settlements_run:
  "settlements evs (run L pe scr po) =
     (case L (launch pe scr (default_params po)) of
        Throws e \<Rightarrow> 0
      | Handle \<Rightarrow>
          if or_string (resolveOn (default_params po)) ''exit'' \<in> fst ` set evs then 1 else 0)"
proof (cases "L (launch pe scr (default_params po))")
  case (Throws e)
  then show ?thesis
    by (simp add: settlements_settled promise_run)
next
  case Handle
  then have "promise (run L pe scr po) = Pending"
    and "listener (run L pe scr po) = Some (or_string (resolveOn (default_params po)) ''exit'')"
    by (simp_all add: promise_run listener_run)
  then show ?thesis
    using Handle by (simp add: settlements_pending)
qed

subsection \<open>The environment of the child\<close>

text \<open>
  A variable that is set to the empty string is falsy for \<^verbatim>\<open>||\<close>: the child then gets
  \<^verbatim>\<open>development\<close>, not the inherited (empty) value.
\<close>

theorem run_env_counterexample:
  "[''NODE_ENV'' \<mapsto> ''''] ''NODE_ENV'' = Some '''' \<and>
   call_env (child (run (\<lambda>c. Handle) [''NODE_ENV'' \<mapsto> ''''] ''server.js'' None
     :: nat run_state)) ''NODE_ENV'' = Some ''development''"
  by (simp add: child_run call_env_launch child_env_def or_string_def)

text \<open>
  C8 (amended). Under each of the three methods the environment given to the child is the
  ambient one with \<^verbatim>\<open>NODE_ENV\<close> set to its inherited value, or to \<^verbatim>\<open>development\<close>
  when it is unset or empty there; every other variable is passed through unchanged.
\<close>

theorem run_env:
  "call_env (child (run L pe scr po :: 'v run_state)) ''NODE_ENV'' =
     Some (case pe ''NODE_ENV'' of
             None \<Rightarrow> ''development''
           | Some v \<Rightarrow> if v = [] then ''development'' else v) \<and>
   (\<forall>k. k \<noteq> ''NODE_ENV'' \<longrightarrow> call_env (child (run L pe scr po :: 'v run_state)) k = pe k)"
  by (simp add: child_run call_env_launch child_env_def or_string_def split: option.splits)

theorem run_env_witness:
  "call_env (child (run (\<lambda>c. Handle)
      [''NODE_ENV'' \<mapsto> ''production'', ''HOME'' \<mapsto> ''/root'']
      ''build/app.js'' (Some \<lparr>run_method = Some ''fork'', args = None, resolveOn = None\<rparr>)
      :: nat run_state)) ''NODE_ENV'' = Some ''production'' \<and>
   ''HOME'' \<noteq> ''NODE_ENV'' \<and>
   call_env (child (run (\<lambda>c. Handle)
      [''NODE_ENV'' \<mapsto> ''production'', ''HOME'' \<mapsto> ''/root'']
      ''build/app.js'' (Some \<lparr>run_method = Some ''fork'', args = None, resolveOn = None\<rparr>)
      :: nat run_state)) ''HOME'' = Some ''/root''"
  using run_env [of "\<lambda>c. Handle :: nat launched"
      "[''NODE_ENV'' \<mapsto> ''production'', ''HOME'' \<mapsto> ''/root'']" "''build/app.js''"
      "Some \<lparr>run_method = Some ''fork'', args = None, resolveOn = None\<rparr>"]
  by simp

subsection \<open>Settling of the promise of run\<close>

text \<open>
  A child that fails to start for want of the file is launched all the same: it emits
  \<^verbatim>\<open>error\<close> and never \<^verbatim>\<open>exit\<close>, and with the default \<^verbatim>\<open>resolveOn\<close> nothing settles the
  promise.
\<close>

theorem run_resolves_counterexample:
  "settlements [(''error'', ''ENOENT'')]
     (run (\<lambda>c. Handle) Map.empty ''nosuch'' None :: string run_state) = 0 \<and>
   promise (emit_all [(''error'', ''ENOENT'')]
     (run (\<lambda>c. Handle) Map.empty ''nosuch'' None :: string run_state)) = Pending"
  by (simp add: promise_emit promise_run listener_run default_params_def no_params_def
      or_string_def)

text \<open>
  C5 (amended). For every request and every sequence of events of its child, the promise
  of \<^verbatim>\<open>run\<close> is settled at most once. When the launching call returns a child, no event
  rejects the promise, and the events resolve it exactly once if the awaited event occurs
  among them, with the payload of its first occurrence and whatever follows, and not at
  all otherwise: the promise is then still pending. When the launching call throws, the
  promise is rejected with the exception from the start and no event resolves it.
\<close>

theorem run_resolves_once:
  "settlements evs (run L pe scr po) =
     (case L (launch pe scr (default_params po)) of
        Throws e \<Rightarrow> 0
      | Handle \<Rightarrow>
          if or_string (resolveOn (default_params po)) ''exit'' \<in> fst ` set evs then 1 else 0) \<and>
   settlements evs (run L pe scr po) \<le> 1 \<and>
   promise (emit_all evs (run L pe scr po)) =
     (case L (launch pe scr (default_params po)) of
        Throws e \<Rightarrow> Rejected e
      | Handle \<Rightarrow>
          (case find (\<lambda>ev. fst ev = or_string (resolveOn (default_params po)) ''exit'') evs of
             None \<Rightarrow> Pending
           | Some ev \<Rightarrow> Fulfilled (snd ev)))"
proof -
  have "settlements evs (run L pe scr po) \<le> 1"
    by (simp add: settlements_run split: launched.splits)
  then show ?thesis
    by (simp only: settlements_run promise_emit_all_run simp_thms)
qed

subsection \<open>A child that fails to start\<close>



section \<open>Properties of getServers\<close>

text \<open>
  C4. For every list of bundle names, \<^verbatim>\<open>getServers\<close> with \<^verbatim>\<open>hot: false\<close> maps each
  name, in order, to the request for \<^verbatim>\<open>build/<name>.js\<close> with the method \<^verbatim>\<open>fork\<close>, and
  with \<^verbatim>\<open>hot: true\<close> to the request for \<^verbatim>\<open>scripts/nodemon\<close> with the one argument
  \<^verbatim>\<open>build/<name>.js\<close> and no method, which \<^verbatim>\<open>run\<close> launches with \<^verbatim>\<open>spawn\<close> and
  inherited standard streams (the first lets \<^verbatim>\<open>run\<close> call \<^verbatim>\<open>fork\<close>).
\<close>

theorem getServers_explicit:
  "getServers fs (Some \<lparr>bundles = Some names, hot = Some False\<rparr>) =
     (Inr (map (\<lambda>n. \<lparr>script = ''build/'' @ n @ ''.js'',
                      params = Some \<lparr>run_method = Some ''fork'', args = None, resolveOn = None\<rparr>\<rparr>)
            names), []) \<and>
   getServers fs (Some \<lparr>bundles = Some names, hot = Some True\<rparr>) =
     (Inr (map (\<lambda>n. \<lparr>script = ''scripts/nodemon'',
                      params = Some \<lparr>run_method = None, args = Some [''build/'' @ n @ ''.js''],
                                     resolveOn = None\<rparr>\<rparr>)
            names), []) \<and>
   map (\<lambda>r. child (run L pe (script r) (params r) :: 'v run_state))
     (map hot_server names) =
     map (\<lambda>n. Spawn ''scripts/nodemon'' [''build/'' @ n @ ''.js''] ''inherit'' (child_env pe))
       names \<and>
   map (\<lambda>r. child (run L pe (script r) (params r) :: 'v run_state))
     (map fork_server names) =
     map (\<lambda>n. Fork (''build/'' @ n @ ''.js'') [] False (child_env pe)) names"
  by (simp add: getServers_def hot_server_def fork_server_def child_run default_params_def
      launch_def or_array_def cong: map_cong)

text \<open>
  C10. When \<^verbatim>\<open>bundles\<close> is supplied, the empty list included, the result of
  \<^verbatim>\<open>getServers\<close> depends on \<^verbatim>\<open>bundles\<close> and \<^verbatim>\<open>hot\<close> only: it is the same under any two
  file systems, no directory is read, and the call returns its list (it cannot fail, even
  where \<^verbatim>\<open>readdirSync\<close> would throw).
\<close>

theorem getServers_ignores_filesystem:
  "getServers fs1 (Some \<lparr>bundles = Some bs, hot = h\<rparr>) =
     getServers fs2 (Some \<lparr>bundles = Some bs, hot = h\<rparr>) \<and>
   getServers fs1 (Some \<lparr>bundles = Some bs, hot = h\<rparr>) =
     (Inr (if h = Some True then map hot_server bs else map fork_server bs), [])"
  by (simp add: getServers_def)

section \<open>Properties of runAsync\<close>

text \<open>
  C9. A bare string \<open>s\<close> anywhere in the list handed to \<^verbatim>\<open>runAsync\<close> gives the same batch
  (same launches, same listeners, same promises, hence the same results under every
  sequence of events) as the object with that script and no \<^verbatim>\<open>params\<close>, and as the object
  with that script and empty \<^verbatim>\<open>params\<close>: \<^verbatim>\<open>run\<close> gets the defaults in all three cases.
\<close>

theorem runAsync_bare_string:
  "(runAsync L pe (pre @ [Str s] @ post) :: 'v batch_state) =
     runAsync L pe (pre @ [Obj \<lparr>script = s, params = None\<rparr>] @ post) \<and>
   (runAsync L pe (pre @ [Str s] @ post) :: 'v batch_state) =
     runAsync L pe (pre @ [Obj \<lparr>script = s, params = Some no_params\<rparr>] @ post) \<and>
   (run L pe s None :: 'v run_state) = run L pe s (Some no_params)"
  by (simp add: runAsync_def run_def default_params_def)

subsection \<open>The invariant of the batch\<close>

lemma runs_element_settled: "runs (element_settled i p bs) = runs bs"
  by (cases p) (simp_all add: element_settled_def Let_def)

lemma runs_settle_initial: "runs (settle_initial i ps bs) = runs bs"
  by (induction ps arbitrary: i bs) (simp_all add: runs_element_settled)

lemma runs_promise_all: "runs (promise_all rs) = rs"
  by (simp add: promise_all_def runs_settle_initial)

lemma runs_batch_emit:
  "runs (batch_emit ev bs) =
     (if fst ev < length (runs bs)
      then (runs bs)[fst ev := emit (snd ev) (runs bs ! fst ev)] else runs bs)"
  by (simp add: batch_emit_def Let_def runs_element_settled)

lemma length_runs_batch_emit_all: "length (runs (batch_emit_all evs bs)) = length (runs bs)"
  by (induction evs arbitrary: bs) (simp_all add: runs_batch_emit)

lemma runs_batch_emit_all:
  "i < length (runs bs) \<Longrightarrow>
   runs (batch_emit_all evs bs) ! i = emit_all (events_of i evs) (runs bs ! i)"
proof (induction evs arbitrary: bs)
  case Nil
  then show ?case by (simp add: events_of_def)
next
  case (Cons ev evs)
  have len: "i < length (runs (batch_emit ev bs))"
    using Cons.prems by (simp add: runs_batch_emit)
  have "runs (batch_emit_all (ev # evs) bs) ! i =
        emit_all (events_of i evs) (runs (batch_emit ev bs) ! i)"
    using Cons.IH [OF len] by simp
  also have "\<dots> = emit_all (events_of i (ev # evs)) (runs bs ! i)"
    using Cons.prems by (simp add: runs_batch_emit events_of_def nth_list_update)
  finally show ?case .
qed

lemma length_filter_update_out:
  "i < length xs \<Longrightarrow> P (xs ! i) \<Longrightarrow> \<not> P y \<Longrightarrow>
   length (filter P (xs[i := y])) = length (filter P xs) - 1"
proof (induction xs arbitrary: i)
  case Nil
  then show ?case by simp
next
  case (Cons x xs)
  show ?case
  proof (cases i)
    case 0
    then show ?thesis using Cons.prems by simp
  next
    case (Suc j)
    then have "length (filter P (xs[j := y])) = length (filter P xs) - 1"
      using Cons by simp
    moreover have "0 < length (filter P xs)"
      using Cons.prems Suc by (auto simp: filter_empty_conv)
    ultimately show ?thesis using Suc by simp
  qed
qed

lemma in_set_update_other:
  assumes "x \<in> set xs" and "x \<noteq> xs ! i"
  shows "x \<in> set (xs[i := y])"
proof -
  from assms(1) obtain j where j: "j < length xs" and x: "xs ! j = x"
    by (auto simp: in_set_conv_nth)
  with assms(2) have "j \<noteq> i" by auto
  then have "xs[i := y] ! j = x" using x by simp
  moreover have "j < length (xs[i := y])" using j by simp
  ultimately show ?thesis by (metis nth_mem)
qed

lemma emit_cases:
  "emit ev r = r \<or> (promise r = Pending \<and> listener r = Some (fst ev) \<and>
     emit ev r = r\<lparr>promise := Fulfilled (snd ev)\<rparr>)"
  by (cases "promise r") (auto simp: emit_def)

text \<open>
  The runs start pending or rejected, never fulfilled: the reactions to the settled ones
  leave the slots and the counter alone and change the aggregate to rejected at most.
\<close>

lemma settle_initial_unfulfilled:
  "\<forall>p \<in> set ps. value_of p = None \<Longrightarrow>
   \<exists>a. settle_initial i ps bs = bs\<lparr>all_promise := a\<rparr> \<and>
       (a = all_promise bs \<or>
        (all_promise bs = Pending \<and> (\<exists>e. a = Rejected e \<and> Rejected e \<in> set ps)))"
proof (induction ps arbitrary: i bs)
  case Nil
  then show ?case by simp
next
  case (Cons p ps)
  from Cons.prems have rest: "\<forall>q \<in> set ps. value_of q = None" by simp
  show ?case
  proof (cases p)
    case Pending
    then have "element_settled i p bs = bs" by (simp add: element_settled_def)
    then show ?thesis using Cons.IH [OF rest, of "Suc i" bs] by auto
  next
    case (Fulfilled v)
    then show ?thesis using Cons.prems by simp
  next
    case (Rejected e)
    define bs1 where "bs1 = bs\<lparr>all_promise := reject e (all_promise bs)\<rparr>"
    have step: "element_settled i p bs = bs1"
      using Rejected by (simp add: element_settled_def bs1_def)
    from Cons.IH [OF rest, of "Suc i" bs1] obtain a where
      a: "settle_initial (Suc i) ps bs1 = bs1\<lparr>all_promise := a\<rparr>" and
      d: "a = all_promise bs1 \<or>
          (all_promise bs1 = Pending \<and> (\<exists>e. a = Rejected e \<and> Rejected e \<in> set ps))"
      by blast
    have eq: "settle_initial i (p # ps) bs = bs\<lparr>all_promise := a\<rparr>"
      using a step by (simp add: bs1_def)
    have "a = all_promise bs \<or>
        (all_promise bs = Pending \<and> (\<exists>e. a = Rejected e \<and> Rejected e \<in> set (p # ps)))"
    proof (cases "all_promise bs")
      case Pending
      then have "all_promise bs1 = Rejected e" by (simp add: bs1_def)
      then have "a = Rejected e" using d by auto
      then show ?thesis using Pending Rejected by auto
    next
      case (Fulfilled vs)
      then have "all_promise bs1 = all_promise bs" by (simp add: bs1_def)
      then show ?thesis using d Fulfilled by auto
    next
      case (Rejected e')
      then have "all_promise bs1 = all_promise bs" by (simp add: bs1_def)
      then show ?thesis using d Rejected by auto
    qed
    then show ?thesis using eq by blast
  qed
qed

lemma vals_all_unfulfilled:
  "\<forall>r \<in> set rs. value_of (promise r) = None \<Longrightarrow>
   replicate (length rs) None = map (\<lambda>r. value_of (promise r)) rs"
  by (induction rs) simp_all

lemma batch_inv_promise_all:
  assumes "\<forall>r \<in> set rs. value_of (promise r) = None"
  shows "batch_inv (promise_all rs)"
proof -
  define init :: "'a batch_state" where
    "init = \<lparr>runs = rs, vals = replicate (length rs) None, remaining = length rs,
             all_promise = (if rs = [] then Fulfilled [] else Pending)\<rparr>"
  have "\<forall>p \<in> set (map promise rs). value_of p = None"
    using assms by simp
  from settle_initial_unfulfilled [OF this, of 0 init] obtain a where
    a: "settle_initial 0 (map promise rs) init = init\<lparr>all_promise := a\<rparr>" and
    d: "a = all_promise init \<or>
        (all_promise init = Pending \<and>
         (\<exists>e. a = Rejected e \<and> Rejected e \<in> set (map promise rs)))"
    by blast
  have pa: "promise_all rs = init\<lparr>all_promise := a\<rparr>"
    using a by (simp add: promise_all_def init_def)
  have f: "filter (\<lambda>r. value_of (promise r) = None) rs = rs"
    using assms by (simp add: filter_id_conv)
  show ?thesis
  proof (cases "rs = []")
    case True
    then have "a = Fulfilled []" using d by (simp add: init_def)
    then show ?thesis
      unfolding pa batch_inv_def using True by (simp add: init_def)
  next
    case False
    then have "a = Pending \<or> (\<exists>e. a = Rejected e \<and> (\<exists>r \<in> set rs. promise r = Rejected e))"
      using d by (auto simp: init_def)
    then show ?thesis
      unfolding pa batch_inv_def using False f vals_all_unfulfilled [OF assms]
      by (auto simp: init_def)
  qed
qed

lemma batch_inv_emit:
  assumes "batch_inv bs"
  shows "batch_inv (batch_emit ev bs)"
proof (cases "fst ev < length (runs bs)")
  case False
  then show ?thesis using assms by (simp add: batch_emit_def)
next
  case True
  define i where "i = fst ev"
  define r where "r = runs bs ! i"
  have i: "i < length (runs bs)" using True by (simp add: i_def)
  from emit_cases [of "snd ev" r] show ?thesis
  proof
    assume same: "emit (snd ev) r = r"
    have "(runs bs)[i := r] = runs bs"
      by (simp add: r_def)
    then have "batch_emit ev bs = bs"
      using True same
      by (cases "promise r")
        (simp_all add: batch_emit_def Let_def element_settled_def i_def [symmetric]
          r_def [symmetric])
    then show ?thesis using assms by simp
  next
    assume upd: "promise r = Pending \<and> listener r = Some (fst (snd ev)) \<and>
      emit (snd ev) r = r\<lparr>promise := Fulfilled (snd (snd ev))\<rparr>"
    define r' where "r' = r\<lparr>promise := Fulfilled (snd (snd ev))\<rparr>"
    define rs' where "rs' = (runs bs)[i := r']"
    define vs' where "vs' = (vals bs)[i := Some (snd (snd ev))]"
    have step: "batch_emit ev bs =
      bs\<lparr>runs := rs', vals := vs', remaining := remaining bs - 1,
         all_promise := (if remaining bs - 1 = 0 then resolve (map the vs') (all_promise bs)
                        else all_promise bs)\<rparr>"
      using True upd
      by (simp add: batch_emit_def Let_def element_settled_def i_def [symmetric]
          r_def [symmetric] r'_def rs'_def vs'_def)
    have "r \<in> set (runs bs)" and "value_of (promise r) = None"
      using i upd by (simp_all add: r_def)
    then have "filter (\<lambda>r. value_of (promise r) = None) (runs bs) \<noteq> []"
      unfolding filter_empty_conv by blast
    then have pos: "remaining bs \<noteq> 0"
      using assms by (simp add: batch_inv_def)
    have v: "vs' = map (\<lambda>r. value_of (promise r)) rs'"
      using assms by (simp add: batch_inv_def vs'_def rs'_def r'_def map_update)
    have n: "remaining bs - 1 = length (filter (\<lambda>r. value_of (promise r) = None) rs')"
      using assms i upd
      by (simp add: batch_inv_def rs'_def r'_def r_def length_filter_update_out)
    have keep: "x \<in> set rs'" if "x \<in> set (runs bs)" and "promise x = Rejected e" for x e
    proof -
      have "x \<noteq> runs bs ! i" using that(2) upd by (auto simp: r_def)
      then show ?thesis
        unfolding rs'_def using that(1) by (rule in_set_update_other [rotated])
    qed
    from assms pos have
      old: "all_promise bs = Pending \<or>
            ((\<exists>e. all_promise bs = Rejected e) \<and>
             (\<exists>x \<in> set (runs bs). \<exists>e. promise x = Rejected e))"
      by (simp add: batch_inv_def)
    have new: "all_promise bs = Pending \<or>
            ((\<exists>e. all_promise bs = Rejected e) \<and> (\<exists>x \<in> set rs'. \<exists>e. promise x = Rejected e))"
      using old keep by blast
    have last: "all_promise bs = Pending" if "remaining bs - 1 = 0"
    proof -
      from that n have "filter (\<lambda>r. value_of (promise r) = None) rs' = []" by simp
      then have "\<forall>x \<in> set rs'. value_of (promise x) \<noteq> None"
        by (simp add: filter_empty_conv)
      then have "\<not> (\<exists>x \<in> set rs'. \<exists>e. promise x = Rejected e)" by auto
      then show ?thesis using new by blast
    qed
    show ?thesis
      unfolding batch_inv_def
    proof (intro conjI impI)
      show "vals (batch_emit ev bs) = map (\<lambda>r. value_of (promise r)) (runs (batch_emit ev bs))"
        using v by (simp add: step)
      show "remaining (batch_emit ev bs) =
          length (filter (\<lambda>r. value_of (promise r) = None) (runs (batch_emit ev bs)))"
        using n by (simp add: step)
    next
      assume "remaining (batch_emit ev bs) = 0"
      then have z: "remaining bs - 1 = 0" by (simp add: step)
      then show "all_promise (batch_emit ev bs) = Fulfilled (map the (vals (batch_emit ev bs)))"
        using last [OF z] by (simp add: step)
    next
      assume "remaining (batch_emit ev bs) \<noteq> 0"
      then have nz: "remaining bs - 1 \<noteq> 0" by (simp add: step)
      then have "all_promise (batch_emit ev bs) = all_promise bs"
        and "runs (batch_emit ev bs) = rs'"
        by (simp_all add: step)
      then show "all_promise (batch_emit ev bs) = Pending \<or>
          ((\<exists>e. all_promise (batch_emit ev bs) = Rejected e) \<and>
           (\<exists>r \<in> set (runs (batch_emit ev bs)). \<exists>e. promise r = Rejected e))"
        using new by simp
    qed
  qed
qed

lemma batch_inv_emit_all: "batch_inv bs \<Longrightarrow> batch_inv (batch_emit_all evs bs)"
  by (induction evs arbitrary: bs) (simp_all add: batch_inv_emit)

lemma batch_inv_runAsync: "batch_inv (runAsync L pe scripts)"
  unfolding runAsync_def by (rule batch_inv_promise_all) (auto simp: value_of_promise_run)

lemma runs_runAsync:
  "i < length scripts \<Longrightarrow>
   runs (runAsync L pe scripts) ! i =
     run L pe (fst (to_args (scripts ! i))) (snd (to_args (scripts ! i)))"
  by (simp add: runAsync_def runs_promise_all)

lemma length_runs_runAsync: "length (runs (runAsync L pe scripts)) = length scripts"
  by (simp add: runAsync_def runs_promise_all)

lemma batch_inv_fulfilled:
  assumes "batch_inv bs" and "all_promise bs = Fulfilled rs"
  shows "length rs = length (runs bs) \<and>
         (\<forall>i<length (runs bs). promise (runs bs ! i) = Fulfilled (rs ! i))"
proof -
  have zero: "remaining bs = 0"
    using assms by (auto simp: batch_inv_def)
  then have rs: "rs = map the (vals bs)"
    using assms by (simp add: batch_inv_def)
  have "filter (\<lambda>r. value_of (promise r) = None) (runs bs) = []"
    using assms(1) zero by (simp add: batch_inv_def)
  then have np: "\<forall>r \<in> set (runs bs). value_of (promise r) \<noteq> None"
    by (simp add: filter_empty_conv)
  have vs: "vals bs = map (\<lambda>r. value_of (promise r)) (runs bs)"
    using assms(1) by (simp add: batch_inv_def)
  have "promise (runs bs ! i) = Fulfilled (rs ! i)" if "i < length (runs bs)" for i
  proof -
    have "runs bs ! i \<in> set (runs bs)" using that by simp
    then obtain v where "promise (runs bs ! i) = Fulfilled v"
      using np by (cases "promise (runs bs ! i)") auto
    then show ?thesis using that by (simp add: rs vs)
  qed
  then show ?thesis by (simp add: rs vs)
qed

lemma batch_inv_resolved:
  assumes "batch_inv bs" and "\<forall>r \<in> set (runs bs). value_of (promise r) \<noteq> None"
  shows "all_promise bs = Fulfilled (map the (vals bs))"
proof -
  have "filter (\<lambda>r. value_of (promise r) = None) (runs bs) = []"
    using assms(2) by (simp add: filter_empty_conv)
  then have "remaining bs = 0"
    using assms(1) by (simp add: batch_inv_def)
  then show ?thesis
    using assms(1) by (simp add: batch_inv_def)
qed

text \<open>
  The aggregate promise is fulfilled as soon as every launch has returned a child and
  every child has emitted the event its run awaits, in whatever order.
\<close>

lemma runAsync_resolves:
  assumes "\<forall>i<length scripts.
      L (launch pe (fst (to_args (scripts ! i))) (default_params (snd (to_args (scripts ! i)))))
        = Handle \<and>
      or_string (resolveOn (default_params (snd (to_args (scripts ! i))))) ''exit''
        \<in> fst ` set (events_of i evs)"
  shows "\<exists>rs. all_promise (batch_emit_all evs (runAsync L pe scripts)) = Fulfilled rs"
proof -
  let ?bs = "batch_emit_all evs (runAsync L pe scripts)"
  have inv: "batch_inv ?bs"
    by (rule batch_inv_emit_all) (rule batch_inv_runAsync)
  have len: "length (runs ?bs) = length scripts"
    by (simp add: length_runs_batch_emit_all length_runs_runAsync)
  have "value_of (promise r) \<noteq> None" if "r \<in> set (runs ?bs)" for r
  proof -
    from that obtain i where i: "i < length scripts" and r: "r = runs ?bs ! i"
      using len by (auto simp: in_set_conv_nth)
    let ?s = "fst (to_args (scripts ! i))" and ?p = "snd (to_args (scripts ! i))"
    let ?d = "or_string (resolveOn (default_params ?p)) ''exit''"
    have req: "r = emit_all (events_of i evs) (run L pe ?s ?p)"
      using i r by (simp add: runs_batch_emit_all length_runs_runAsync runs_runAsync)
    have h: "L (launch pe ?s (default_params ?p)) = Handle"
      and d: "?d \<in> fst ` set (events_of i evs)"
      using assms i by blast+
    from d obtain ev where "ev \<in> set (events_of i evs)" and "fst ev = ?d"
      by auto
    then have "find (\<lambda>ev. fst ev = ?d) (events_of i evs) \<noteq> None"
      unfolding find_None_iff by blast
    then show ?thesis
      using h by (auto simp: req promise_emit_all_run split: option.splits)
  qed
  then show ?thesis
    using batch_inv_resolved [OF inv] by blast
qed

text \<open>
  C3. Whenever the aggregate promise of \<^verbatim>\<open>runAsync\<close> is fulfilled, after any interleaving
  of the events of the children, its value has the length of the input and its \<open>i\<close>-th
  element is what the promise of the \<open>i\<close>-th run was fulfilled with, which depends on the
  events of child \<open>i\<close> alone and not on the order in which the runs completed.
\<close>

theorem runAsync_positional:
  assumes "all_promise (batch_emit_all evs (runAsync L pe scripts)) = Fulfilled rs"
  shows "length rs = length scripts \<and>
         (\<forall>i<length scripts.
            promise (emit_all (events_of i evs)
              (run L pe (fst (to_args (scripts ! i))) (snd (to_args (scripts ! i)))))
            = Fulfilled (rs ! i))"
proof -
  let ?bs = "batch_emit_all evs (runAsync L pe scripts)"
  have inv: "batch_inv ?bs"
    by (rule batch_inv_emit_all) (rule batch_inv_runAsync)
  have len: "length (runs ?bs) = length scripts"
    by (simp add: length_runs_batch_emit_all length_runs_runAsync)
  have nth: "runs ?bs ! i =
        emit_all (events_of i evs)
          (run L pe (fst (to_args (scripts ! i))) (snd (to_args (scripts ! i))))"
    if "i < length scripts" for i
    using that by (simp add: runs_batch_emit_all length_runs_runAsync runs_runAsync)
  note bf = batch_inv_fulfilled [OF inv assms]
  have l: "length rs = length (runs ?bs)"
    by (rule conjunct1 [OF bf])
  have f: "\<forall>i<length (runs ?bs). promise (runs ?bs ! i) = Fulfilled (rs ! i)"
    by (rule conjunct2 [OF bf])
  show ?thesis
  proof (intro conjI allI impI)
    show "length rs = length scripts" using l len by simp
  next
    fix i assume i: "i < length scripts"
    have "promise (runs ?bs ! i) = Fulfilled (rs ! i)"
      using f len i by simp
    then show "promise (emit_all (events_of i evs)
        (run L pe (fst (to_args (scripts ! i))) (snd (to_args (scripts ! i)))))
      = Fulfilled (rs ! i)"
      by (simp only: nth [OF i])
  qed
qed

text \<open>
  Two requests, both launched, whose children exit in the reverse order: \<open>b\<close> first, with 10, then \<open>a\<close>,
  with 100. The result lists them in the order of the requests.
\<close>

theorem runAsync_positional_witness:
  "all_promise (batch_emit_all [(1, ''exit'', 10), (0, ''exit'', 100)]
      (runAsync (\<lambda>c. Handle) Map.empty [Str ''a'', Str ''b''])) = Fulfilled [100, 10 :: nat] \<and>
   length [100, 10 :: nat] = length [Str ''a'', Str ''b''] \<and>
   promise (emit_all (events_of 0 [(1, ''exit'', 10), (0, ''exit'', 100)])
     (run (\<lambda>c. Handle) Map.empty (fst (to_args (Str ''a''))) (snd (to_args (Str ''a'')))))
     = Fulfilled (100 :: nat) \<and>
   promise (emit_all (events_of 1 [(1, ''exit'', 10), (0, ''exit'', 100)])
     (run (\<lambda>c. Handle) Map.empty (fst (to_args (Str ''b''))) (snd (to_args (Str ''b'')))))
     = Fulfilled (10 :: nat)"
proof -
  have h: "all_promise (batch_emit_all [(1, ''exit'', 10), (0, ''exit'', 100)]
      (runAsync (\<lambda>c. Handle) Map.empty [Str ''a'', Str ''b''])) = Fulfilled [100, 10 :: nat]"
    by (simp add: runAsync_def promise_all_def run_def default_params_def no_params_def
        or_string_def batch_emit_def element_settled_def emit_def Let_def)
  note r = runAsync_positional [OF h]
  have "length [100, 10 :: nat] = length [Str ''a'', Str ''b'']"
    by (rule conjunct1 [OF r])
  moreover have "promise (emit_all (events_of 0 [(1, ''exit'', 10), (0, ''exit'', 100)])
     (run (\<lambda>c. Handle) Map.empty (fst (to_args (Str ''a''))) (snd (to_args (Str ''a'')))))
     = Fulfilled (100 :: nat)"
    using conjunct2 [OF r, rule_format, of 0] by simp
  moreover have "promise (emit_all (events_of 1 [(1, ''exit'', 10), (0, ''exit'', 100)])
     (run (\<lambda>c. Handle) Map.empty (fst (to_args (Str ''b''))) (snd (to_args (Str ''b'')))))
     = Fulfilled (10 :: nat)"
    using conjunct2 [OF r, rule_format, of 1] by simp
  ultimately show ?thesis using h by blast
qed

section \<open>Properties of the compilation functions\<close>

lemma logWebpackData_with_stats:
  "logWebpackData err (Some st) c =
     (Inr (),
      \<lparr>errors = (case err of None \<Rightarrow> errors c | Some e \<Rightarrow> errors c @ [e]),
       logs = logs c @ [st \<lparr>colors = True, hash = False, version = False, chunks = False,
                           children = False\<rparr>]\<rparr>)"
  by (cases err) (simp_all add: logWebpackData_def)

lemma logWebpackData_without_stats:
  "logWebpackData err None c =
     (Inl TypeError,
      \<lparr>errors = (case err of None \<Rightarrow> errors c | Some e \<Rightarrow> errors c @ [e]), logs = logs c\<rparr>)"
  by (cases err) (simp_all add: logWebpackData_def)

text \<open>
  C7 (the code diverges from it). With an error and no stats object, which is how the
  bundler reports a fatal failure, \<^verbatim>\<open>logWebpackData\<close> writes the error to the error
  channel and then throws a \<^verbatim>\<open>TypeError\<close> into its caller; with a stats object present it
  returns normally, as \<open>logWebpackData_with_stats\<close> shows.
\<close>

theorem logWebpackData_absent_stats_throws:
  "logWebpackData (Some ''fatal'') None \<lparr>errors = [], logs = []\<rparr> =
     (Inl TypeError, \<lparr>errors = [''fatal''], logs = []\<rparr>)"
  by (simp add: logWebpackData_def)

lemma compile_with_stats:
  "future (compile (\<lambda>cfg. [(err, Some st)]) c config) = Fulfilled ()"
  by (simp add: compile_def compile_callback_def logWebpackData_with_stats)

text \<open>
  C2 (the code diverges from it). When the completion callback of \<^verbatim>\<open>compile\<close> fires with
  a fatal error and no stats object, the error is written to the error channel, the
  \<^verbatim>\<open>TypeError\<close> of \<^verbatim>\<open>logWebpackData\<close> leaves the callback before \<^verbatim>\<open>resolve\<close> is reached,
  and the promise stays pending; it is neither resolved nor rejected.
\<close>

theorem compile_fatal_error_never_resolves:
  "future (compile (\<lambda>cfg. [(Some ''fatal'', None)]) \<lparr>errors = [], logs = []\<rparr> ()) = Pending \<and>
   uncaught (compile (\<lambda>cfg. [(Some ''fatal'', None)]) \<lparr>errors = [], logs = []\<rparr> ()) = [TypeError] \<and>
   console (compile (\<lambda>cfg. [(Some ''fatal'', None)]) \<lparr>errors = [], logs = []\<rparr> ()) =
     \<lparr>errors = [''fatal''], logs = []\<rparr>"
  by (simp add: compile_def compile_callback_def logWebpackData_def)

lemma future_watch_callback_settled:
  "future s \<noteq> Pending \<Longrightarrow> future (watch_callback oc s) = future s"
  by (cases "future s")
    (auto simp: watch_callback_def split: prod.splits sum.splits)

lemma future_watch_settled:
  "future s \<noteq> Pending \<Longrightarrow> future (callbacks watch_callback ocs s) = future s"
  by (induction ocs arbitrary: s) (simp_all add: future_watch_callback_settled)

lemma resolutions_watch_settled:
  "future s \<noteq> Pending \<Longrightarrow> resolutions watch_callback ocs s = 0"
  by (induction ocs arbitrary: s) (simp_all add: future_watch_callback_settled)

lemma resolutions_watch_le_1: "resolutions watch_callback ocs s \<le> 1"
proof (induction ocs arbitrary: s)
  case Nil
  then show ?case by simp
next
  case (Cons oc ocs)
  show ?case
  proof (cases "future s = Pending \<and> future (watch_callback oc s) \<noteq> Pending")
    case True
    then show ?thesis by (simp add: resolutions_watch_settled)
  next
    case False
    then show ?thesis using Cons.IH [of "watch_callback oc s"] by auto
  qed
qed

lemma watch_first_with_stats:
  "future (compileAndWatch (\<lambda>cfg. (err, Some st) # ocs) c config) = Fulfilled ()"
  by (simp add: compileAndWatch_def watch_callback_def logWebpackData_with_stats
      future_watch_settled)

text \<open>
  C1 (the code diverges from it). When the first pass of \<^verbatim>\<open>compileAndWatch\<close> fails
  fatally (an error, no stats object), the callback throws before it reaches
  \<^verbatim>\<open>resolve\<close> and \<^verbatim>\<open>initialRun\<close> stays set: the promise is still pending after the first
  outcome, and it is a later pass, the first one with a stats object, that resolves it.
\<close>

theorem compileAndWatch_fatal_first_pass:
  "future (compileAndWatch (\<lambda>cfg. [(Some ''fatal'', None)]) \<lparr>errors = [], logs = []\<rparr> ())
     = Pending \<and>
   future (compileAndWatch (\<lambda>cfg. [(Some ''fatal'', None), (None, Some (\<lambda>opts. ''ok''))])
     \<lparr>errors = [], logs = []\<rparr> ()) = Fulfilled ()"
  by (simp add: compileAndWatch_def watch_callback_def logWebpackData_def)

end
